theory Spec2Isabelle
  imports Main
begin

section \<open>Arbitrary-precision helpers (prime_checker/utils.py)\<close>

text \<open>
  Python integers and gmpy2's \<open>mpz\<close> are unbounded, so they are HOL's \<open>int\<close>.
  Python's \<open>//\<close> and \<open>%\<close> round towards minus infinity, exactly as \<open>div\<close> and
  \<open>mod\<close> on \<open>int\<close> do.
\<close>

text \<open>
  \<open>mod_exp(base, exp, mod)\<close> is \<open>gmpy2.powmod\<close>. Every call in the repository has
  a non-negative exponent and a positive modulus, where \<open>powmod\<close> is the power reduced
  into \<open>[0, mod)\<close>.
\<close>

definition mod_exp :: "int \<Rightarrow> int \<Rightarrow> int \<Rightarrow> int" where
  "mod_exp base e m = base ^ nat e mod m"

text \<open>
  \<open>decompose_n_minus_1\<close>: the loop \<open>while d % 2 == 0: d //= 2; s += 1\<close>. For
  \<open>n = 1\<close> the loop starts at \<open>d = 0\<close> and never ends; not returning is \<open>None\<close>.
\<close>

partial_function (option) decompose_loop :: "int \<Rightarrow> int \<Rightarrow> (int \<times> int) option" where
  "decompose_loop s d =
     (if d mod 2 = 0 then decompose_loop (s + 1) (d div 2) else Some (s, d))"

declare decompose_loop.simps [code]

definition decompose_n_minus_1 :: "int \<Rightarrow> (int \<times> int) option" where
  "decompose_n_minus_1 n = decompose_loop 0 (n - 1)"

text \<open>
  \<open>gmpy2.is_prime(n, reps)\<close> is a library routine outside the repository. It is a
  parameter of every function that reaches it: the first argument is the candidate,
  the second the repetition count (25 when the call gives none).
\<close>

type_synonym probab_prime = "int \<Rightarrow> nat \<Rightarrow> bool"

definition is_probably_prime :: "probab_prime \<Rightarrow> int \<Rightarrow> nat \<Rightarrow> bool" where
  "is_probably_prime lib n k = lib n k"

text \<open>
  The process-wide generator of Python's \<open>random\<close> module is the sequence of raw
  values it is going to yield. \<open>random.randrange(lo, hi)\<close> and
  \<open>random.getrandbits(k)\<close> reduce the next raw value into their range, so every value
  of the range can be drawn and no other.
\<close>

type_synonym random_source = "nat \<Rightarrow> nat"

definition randrange :: "int \<Rightarrow> int \<Rightarrow> nat \<Rightarrow> int" where
  "randrange lo hi raw = lo + int raw mod (hi - lo)"

definition getrandbits :: "nat \<Rightarrow> nat \<Rightarrow> int" where
  "getrandbits k raw = int raw mod 2 ^ k"

definition advance :: "random_source \<Rightarrow> random_source" where
  "advance rng = (\<lambda>i. rng (Suc i))"

datatype py_error = ValueError string

text \<open>
  \<open>generate_random_probable_prime(bits)\<close>: \<open>while True\<close> with no bound on the
  attempts, so the loop is a partial function. \<open>random.getrandbits(bits - 1)\<close> raises
  ValueError for \<open>bits < 1\<close>.
\<close>

partial_function (option) generate_loop :: "probab_prime \<Rightarrow> nat \<Rightarrow> random_source \<Rightarrow> int option" where
  "generate_loop lib k rng =
     (let n0 = 2 ^ k + getrandbits k (rng 0);
          n = (if n0 mod 2 = 0 then n0 + 1 else n0)
      in if is_probably_prime lib n 5 then Some n else generate_loop lib k (advance rng))"

declare generate_loop.simps [code]

definition generate_random_probable_prime ::
  "probab_prime \<Rightarrow> random_source \<Rightarrow> int \<Rightarrow> (py_error + int) option" where
  "generate_random_probable_prime lib rng bits =
     (if bits < 1 then Some (Inl (ValueError ''number of bits must be non-negative''))
      else map_option Inr (generate_loop lib (nat (bits - 1)) rng))"

text \<open>
  \<open>jacobi_symbol(a, n)\<close> is \<open>gmpy2.jacobi\<close>, called only with odd \<open>n > 2\<close>. The
  library computes the Jacobi symbol; it is written here as the binary algorithm
  (halve while even with the sign rule of 2, then swap with the reciprocity sign).
\<close>

function jacobi_loop :: "nat \<Rightarrow> nat \<Rightarrow> int" where
  "jacobi_loop a n =
     (if a = 0 then (if n = 1 then 1 else 0)
      else if even a then
        (if n mod 8 = 3 \<or> n mod 8 = 5 then - jacobi_loop (a div 2) n
         else jacobi_loop (a div 2) n)
      else
        (if a mod 4 = 3 \<and> n mod 4 = 3 then - jacobi_loop (n mod a) a
         else jacobi_loop (n mod a) a))"
  by pat_completeness auto
termination
proof -
  have swap: "2 * (n mod a) + a < 2 * a + n" if a: "a \<noteq> 0" for a n :: nat
  proof (cases "a \<le> n")
    case True
    have "n mod a < a" using a by simp
    moreover have "n mod a \<le> n - a" using True a
      by (metis le_mod_geq mod_less_eq_dividend)
    ultimately show ?thesis using True by linarith
  next
    case False
    then show ?thesis by simp
  qed
  have halve: "2 * (a div 2) + n < 2 * a + n" if "a \<noteq> 0" for a n :: nat
    using that by simp
  show ?thesis
    by (relation "measure (\<lambda>(a, n). 2 * a + n)") (simp_all add: swap halve)
qed

definition jacobi_symbol :: "int \<Rightarrow> int \<Rightarrow> int" where
  "jacobi_symbol a n = jacobi_loop (nat (a mod n)) (nat n)"

definition generate_mersenne_candidate :: "int \<Rightarrow> int" where
  "generate_mersenne_candidate p = 2 ^ nat p - 1"

text \<open>
  \<open>is_prime_small\<close>. \<open>int(n**0.5)\<close> is only evaluated for \<open>3 \<le> n < 1000\<close>, where
  the rounded float square root truncates to the integer square root.
\<close>

function isqrt_from :: "nat \<Rightarrow> nat \<Rightarrow> nat" where
  "isqrt_from n r = (if (r + 1) * (r + 1) \<le> n then isqrt_from n (r + 1) else r)"
  by pat_completeness auto
termination
proof (relation "measure (\<lambda>(n, r). n - r)")
  show "wf (measure (\<lambda>(n, r). n - r))" by simp
next
  fix n r :: nat
  assume "(r + 1) * (r + 1) \<le> n"
  moreover have "r + 1 \<le> (r + 1) * (r + 1)" by simp
  ultimately have "r < n" by linarith
  then show "((n, r + 1), (n, r)) \<in> measure (\<lambda>(n, r). n - r)" by simp
qed

definition isqrt :: "nat \<Rightarrow> nat" where
  "isqrt n = isqrt_from n 0"

text \<open>\<open>for i in range(3, stop, 2): if n % i == 0: return False\<close>, then \<open>return True\<close>.\<close>

function trial_division :: "int \<Rightarrow> int \<Rightarrow> int \<Rightarrow> bool" where
  "trial_division n i stop =
     (if i < stop then (if n mod i = 0 then False else trial_division n (i + 2) stop)
      else True)"
  by pat_completeness auto
termination
  by (relation "measure (\<lambda>(n, i, stop). nat (stop - i))") auto

definition is_prime_small :: "probab_prime \<Rightarrow> int \<Rightarrow> bool" where
  "is_prime_small lib n =
     (if n < 2 then False
      else if n = 2 then True
      else if n mod 2 = 0 then False
      else if n < 1000 then trial_division n 3 (int (isqrt (nat n)) + 1)
      else lib n 25)"


section \<open>The testers (prime_checker/cpu_algorithms.py)\<close>

subsection \<open>MillerRabin\<close>

definition deterministic_bases :: "int list" where
  "deterministic_bases = [2, 3, 5, 7, 11, 13, 17, 19, 23, 29, 31, 37]"

text \<open>
  \<open>_witness_test\<close>: the loop \<open>for _ in range(int(s) - 1)\<close> squares \<open>x\<close>, returns
  True at \<open>n - 1\<close>, False at 1, and False when the range is used up.
\<close>

fun squaring_loop :: "nat \<Rightarrow> int \<Rightarrow> int \<Rightarrow> bool" where
  "squaring_loop 0 x n = False"
| "squaring_loop (Suc c) x n =
     (let x' = mod_exp x 2 n
      in if x' = n - 1 then True else if x' = 1 then False else squaring_loop c x' n)"

definition witness_test :: "int \<Rightarrow> int \<Rightarrow> int \<Rightarrow> int \<Rightarrow> bool" where
  "witness_test a n s d =
     (let x = mod_exp a d n
      in if x = 1 \<or> x = n - 1 then True else squaring_loop (nat (s - 1)) x n)"

text \<open>\<open>for a in witnesses: if not self._witness_test(a, n, s, d): return False\<close>.\<close>

fun run_witnesses :: "int list \<Rightarrow> int \<Rightarrow> int \<Rightarrow> int \<Rightarrow> bool" where
  "run_witnesses [] n s d = True"
| "run_witnesses (a # ws) n s d =
     (if \<not> witness_test a n s d then False else run_witnesses ws n s d)"

text \<open>
  \<open>[mpz(random.randrange(2, int(n - 1))) for _ in range(self.rounds)]\<close>: one draw per
  round, in order.
\<close>

definition random_witnesses :: "random_source \<Rightarrow> int \<Rightarrow> int \<Rightarrow> int list" where
  "random_witnesses rng rounds n = map (\<lambda>i. randrange 2 (n - 1) (rng i)) [0..<nat rounds]"

definition choose_witnesses :: "random_source \<Rightarrow> int \<Rightarrow> int \<Rightarrow> bool \<Rightarrow> int list" where
  "choose_witnesses rng rounds n use_deterministic =
     (if use_deterministic \<and> n < 3317044064679887385961981
      then filter (\<lambda>a. a < n) deterministic_bases
      else random_witnesses rng rounds n)"

text \<open>
  \<open>MillerRabin(rounds).test(n, use_deterministic)\<close>. The result is the returned
  boolean; \<open>None\<close> is a call that does not return.
\<close>

definition MillerRabin_test ::
  "probab_prime \<Rightarrow> random_source \<Rightarrow> int \<Rightarrow> int \<Rightarrow> bool \<Rightarrow> bool option" where
  "MillerRabin_test lib rng rounds n use_deterministic =
     (if n \<le> 1 then Some False
      else if n \<le> 3 then Some True
      else if n mod 2 = 0 then Some False
      else if n < 2 ^ 64 then Some (is_prime_small lib n)
      else case decompose_n_minus_1 n of
             None \<Rightarrow> None
           | Some (s, d) \<Rightarrow>
               Some (run_witnesses (choose_witnesses rng rounds n use_deterministic) n s d))"

subsection \<open>LucasLehmer\<close>

text \<open>\<open>for _ in range(p - 2): s = (s * s - 2) % Mp\<close>; the progress bar only prints.\<close>

fun lucas_lehmer_loop :: "nat \<Rightarrow> int \<Rightarrow> int \<Rightarrow> int" where
  "lucas_lehmer_loop 0 s Mp = s"
| "lucas_lehmer_loop (Suc c) s Mp = lucas_lehmer_loop c ((s * s - 2) mod Mp) Mp"

definition LucasLehmer_test :: "probab_prime \<Rightarrow> int \<Rightarrow> bool" where
  "LucasLehmer_test lib p =
     (if p = 2 then True
      else if \<not> is_prime_small lib p then False
      else (let Mp = 2 ^ nat p - 1 in lucas_lehmer_loop (nat (p - 2)) 4 Mp = 0))"

subsection \<open>LucasPrimality\<close>

text \<open>
  \<open>_find_D\<close>: the probing sequence 5, -7, 9, -11, ...; the magnitude grows by 2 at
  each step and the loop gives up once it exceeds \<open>n\<close>.
\<close>

function find_D_loop :: "int \<Rightarrow> int \<Rightarrow> int option" where
  "find_D_loop n D =
     (if jacobi_symbol D n = - 1 then Some D
      else (let D' = (if D > 0 then - D - 2 else - D + 2)
            in if \<bar>D'\<bar> > n then None else find_D_loop n D'))"
  by pat_completeness auto
termination
  by (relation "measure (\<lambda>(n, D). nat (n + 1 - \<bar>D\<bar>))") (auto simp: Let_def)

definition find_D :: "int \<Rightarrow> int option" where
  "find_D n = find_D_loop n 5"

text \<open>\<open>bin(k)[2:]\<close> for \<open>k \<ge> 0\<close>: the binary digits, most significant first.\<close>

fun bin_digits :: "nat \<Rightarrow> bool list" where
  "bin_digits k = (if k < 2 then [k = 1] else bin_digits (k div 2) @ [odd k])"

text \<open>
  One pass of the loop body of \<open>_lucas_sequence_test\<close> on the running values
  \<open>(U, V, Qk)\<close>: the doubling, then on a set bit the addition, whose halving is the
  floor division \<open>// 2\<close> of the source followed by \<open>% n\<close>.
\<close>

definition lucas_step :: "int \<Rightarrow> int \<Rightarrow> int \<Rightarrow> int \<Rightarrow> int \<times> int \<times> int \<Rightarrow> bool \<Rightarrow> int \<times> int \<times> int" where
  "lucas_step n D P Q st is_set =
     (case st of (U0, V0, Qk0) \<Rightarrow>
        (let U = U0 * V0 mod n;
             V = (V0 * V0 - 2 * Qk0) mod n;
             Qk = Qk0 * Qk0 mod n
         in if is_set
            then ((P * U + V) div 2 mod n, (D * U + P * V) div 2 mod n, Qk * Q mod n)
            else (U, V, Qk)))"

definition lucas_ladder :: "int \<Rightarrow> int \<Rightarrow> int \<times> int \<times> int" where
  "lucas_ladder n D =
     foldl (lucas_step n D 1 ((1 - D) div 4)) (0, 2, 1) (bin_digits (nat (n + 1)))"

definition lucas_sequence_test :: "int \<Rightarrow> int \<Rightarrow> bool" where
  "lucas_sequence_test n D = (fst (lucas_ladder n D) = 0)"

definition LucasPrimality_test :: "int \<Rightarrow> bool" where
  "LucasPrimality_test n =
     (if n \<le> 1 then False
      else if n = 2 then True
      else if n mod 2 = 0 then False
      else case find_D n of None \<Rightarrow> False | Some D \<Rightarrow> lucas_sequence_test n D)"

subsection \<open>BPSW\<close>

text \<open>\<open>BPSW()\<close> holds \<open>MillerRabin(rounds=1)\<close> and calls it with \<open>use_deterministic=True\<close>.\<close>

definition BPSW_test :: "probab_prime \<Rightarrow> random_source \<Rightarrow> int \<Rightarrow> bool option" where
  "BPSW_test lib rng n =
     (if n \<le> 1 then Some False
      else if n = 2 then Some True
      else if n mod 2 = 0 then Some False
      else case MillerRabin_test lib rng 1 n True of
             None \<Rightarrow> None
           | Some mr \<Rightarrow> if \<not> mr then Some False else Some (LucasPrimality_test n))"

subsection \<open>is_prime_cpu\<close>

text \<open>\<open>bit_count\<close> and \<open>bit_length\<close> of a non-negative integer.\<close>

fun bit_count :: "nat \<Rightarrow> nat" where
  "bit_count k = (if k = 0 then 0 else k mod 2 + bit_count (k div 2))"

fun bit_length :: "nat \<Rightarrow> nat" where
  "bit_length k = (if k = 0 then 0 else Suc (bit_length (k div 2)))"

text \<open>The keyword arguments the function reads; an absent key is \<open>None\<close>.\<close>

record kwargs =
  kw_rounds :: "int option"
  kw_p :: "int option"
  kw_show_progress :: "bool option"

text \<open>
  The \<open>if algorithm == "auto"\<close> block. The \<open>else\<close> that selects \<open>"bpsw"\<close> belongs to
  the outer test (\<open>n > 3\<close> and one set bit); when that test holds and the exponent is
  not prime, nothing is assigned and the name stays \<open>"auto"\<close>.
\<close>

definition auto_select :: "probab_prime \<Rightarrow> int \<Rightarrow> string \<Rightarrow> kwargs \<Rightarrow> string \<times> kwargs" where
  "auto_select lib n algorithm kw =
     (if algorithm = ''auto'' then
        (if n > 3 \<and> bit_count (nat (n + 1)) = 1 then
           (let p = int (bit_length (nat (n + 1))) - 1
            in if is_prime_small lib p then (''lucas-lehmer'', kw\<lparr>kw_p := Some p\<rparr>)
               else (algorithm, kw))
         else (''bpsw'', kw))
      else (algorithm, kw))"

definition is_prime_cpu ::
  "probab_prime \<Rightarrow> random_source \<Rightarrow> int \<Rightarrow> string \<Rightarrow> kwargs \<Rightarrow> (py_error + bool) option" where
  "is_prime_cpu lib rng n algorithm0 kw0 =
     (case auto_select lib n algorithm0 kw0 of (algorithm, kw) \<Rightarrow>
        if algorithm = ''miller-rabin'' then
          (let rounds = (case kw_rounds kw of None \<Rightarrow> 20 | Some r \<Rightarrow> r)
           in map_option Inr (MillerRabin_test lib rng rounds n False))
        else if algorithm = ''lucas-lehmer'' then
          (case kw_p kw of
             None \<Rightarrow> Some (Inl (ValueError ''Lucas-Lehmer requires exponent p for testing 2^p - 1''))
           | Some p \<Rightarrow> Some (Inr (LucasLehmer_test lib p)))
        else if algorithm = ''bpsw'' then map_option Inr (BPSW_test lib rng n)
        else Some (Inl (ValueError (''Unknown algorithm: '' @ algorithm))))"

section \<open>Reference notions the statements compare the code with\<close>

text \<open>
  The Lucas sequence \<open>U\<close> with parameters \<open>P\<close>, \<open>Q\<close>:
  \<open>U\<^sub>0 = 0\<close>, \<open>U\<^sub>1 = 1\<close>, \<open>U\<^sub>k\<^sub>+\<^sub>2 = P U\<^sub>k\<^sub>+\<^sub>1 - Q U\<^sub>k\<close>.
\<close>

fun lucas_U :: "int \<Rightarrow> int \<Rightarrow> nat \<Rightarrow> int" where
  "lucas_U P Q 0 = 0"
| "lucas_U P Q (Suc 0) = 1"
| "lucas_U P Q (Suc (Suc k)) = P * lucas_U P Q (Suc k) - Q * lucas_U P Q k"

text \<open>
  \<open>n\<close> is a strong probable prime to base \<open>a\<close> for the decomposition
  \<open>n - 1 = 2^s * d\<close>.
\<close>

definition strong_probable_prime :: "int \<Rightarrow> int \<Rightarrow> nat \<Rightarrow> nat \<Rightarrow> bool" where
  "strong_probable_prime a n s d \<longleftrightarrow>
     a ^ d mod n = 1 \<or> (\<exists>r<s. a ^ (2 ^ r * d) mod n = n - 1)"

text \<open>
  A library that answers exactly (what \<open>gmpy2.is_prime\<close> does on small operands),
  by division by every odd number below the candidate. It instantiates the library
  parameter at concrete inputs.
\<close>

definition exact_prime :: probab_prime where
  "exact_prime n k = (if n \<le> 2 then n = 2 else n mod 2 = 1 \<and> trial_division n 3 n)"

text \<open>A random source that yields the same raw value at every draw.\<close>

definition constant_draws :: "nat \<Rightarrow> random_source" where
  "constant_draws v = (\<lambda>i. v)"

text \<open>The call with no keyword argument.\<close>

definition no_kwargs :: kwargs where
  "no_kwargs = \<lparr>kw_rounds = None, kw_p = None, kw_show_progress = None\<rparr>"

section \<open>The decomposition of n - 1\<close>

declare bin_digits.simps [simp del] bit_count.simps [simp del] bit_length.simps [simp del]
  trial_division.simps [simp del] isqrt_from.simps [simp del] jacobi_loop.simps [simp del]
  find_D_loop.simps [simp del]

lemma decompose_loop_pos:
  "0 < d \<Longrightarrow> \<exists>s' d'. decompose_loop s d = Some (s', d') \<and> s \<le> s' \<and> odd d' \<and> 0 < d'
      \<and> 2 ^ nat (s' - s) * d' = d \<and> (s' = s \<longleftrightarrow> odd d)"
proof (induction "nat d" arbitrary: s d rule: less_induct)
  case less
  show ?case
  proof (cases "d mod 2 = 0")
    case False
    then have "decompose_loop s d = Some (s, d)"
      by (subst decompose_loop.simps) simp
    moreover from False have "odd d" by presburger
    ultimately show ?thesis using less.prems by simp
  next
    case True
    then have ev: "even d" by presburger
    with less.prems have "0 < d div 2 \<and> d div 2 < d" by presburger
    then have half: "0 < d div 2" "nat (d div 2) < nat d" by simp_all
    from less.hyps [OF half(2) half(1), of "s + 1"]
    obtain s' d' where r: "decompose_loop (s + 1) (d div 2) = Some (s', d')"
      and le: "s + 1 \<le> s'" and od: "odd d'" and pos: "0 < d'"
      and eq: "2 ^ nat (s' - (s + 1)) * d' = d div 2"
      by blast
    from True r have "decompose_loop s d = Some (s', d')"
      by (subst decompose_loop.simps) simp
    moreover from le have "nat (s' - s) = Suc (nat (s' - (s + 1)))" by simp
    then have "2 ^ nat (s' - s) * d' = 2 * (2 ^ nat (s' - (s + 1)) * d')" by simp
    with eq ev have "2 ^ nat (s' - s) * d' = d" by simp
    ultimately show ?thesis using le od pos ev by simp
  qed
qed

text \<open>
  C5: for every integer n > 1 the Decomposer returns a pair (s, d) with s >= 0, d odd
  and 2^s * d exactly equal to n - 1.
\<close>

theorem decompose_round_trip:
  "1 < n \<Longrightarrow> \<exists>s d. decompose_n_minus_1 n = Some (s, d) \<and> 0 \<le> s \<and> odd d \<and> 2 ^ nat s * d = n - 1"
proof -
  assume "1 < n"
  then have "0 < n - 1" by simp
  from decompose_loop_pos [OF this, of 0] show ?thesis
    unfolding decompose_n_minus_1_def by auto
qed

theorem decompose_round_trip_witness:
  "(1::int) < 101 \<and> (\<exists>s d. decompose_n_minus_1 101 = Some (s, d) \<and> 0 \<le> s \<and> odd d \<and> 2 ^ nat s * d = 101 - 1)"
  using decompose_round_trip [of 101] by simp

text \<open>
  C6 as stated (s = 0 only when n = 2) fails: for n = 4 the loop stops at once, since
  n - 1 = 3 is odd.
\<close>

theorem decompose_s_zero_counterexample:
  "decompose_n_minus_1 4 = Some (0, 3) \<and> (4::int) > 2"
  unfolding decompose_n_minus_1_def
  by (subst decompose_loop.simps) simp

text \<open>
  C6, amended: for every integer n > 1 the returned s is 0 exactly when n is even; for
  every odd n > 2 the returned s is nonzero.
\<close>

theorem decompose_s_zero_iff_even:
  "1 < n \<Longrightarrow> \<exists>s d. decompose_n_minus_1 n = Some (s, d) \<and> (s = 0 \<longleftrightarrow> even n)"
proof -
  assume "1 < n"
  then have "0 < n - 1" by simp
  from decompose_loop_pos [OF this, of 0] show ?thesis
    unfolding decompose_n_minus_1_def by auto
qed

theorem decompose_s_zero_iff_even_witness:
  "(1::int) < 9 \<and> (\<exists>s d. decompose_n_minus_1 9 = Some (s, d) \<and> (s = 0 \<longleftrightarrow> even (9::int)))"
  using decompose_s_zero_iff_even [of 9] by simp


section \<open>The Miller-Rabin witness test\<close>

lemma square_chain:
  "x ^ (2 ^ Suc r) mod n = (x ^ 2 mod n) ^ (2 ^ r) mod (n::int)"
proof -
  have "x ^ (2 ^ Suc r) = (x ^ 2) ^ (2 ^ r)"
    by (simp add: power_mult [symmetric])
  then show ?thesis by (simp add: power_mod)
qed

lemma squaring_loop_iff:
  "2 < n \<Longrightarrow> squaring_loop c x n \<longleftrightarrow> (\<exists>r. 1 \<le> r \<and> r \<le> c \<and> x ^ (2 ^ r) mod n = n - 1)"
proof (induction c arbitrary: x)
  case 0
  then show ?case by simp
next
  case (Suc c)
  define y where "y = x ^ 2 mod n"
  have chain: "x ^ (2 ^ Suc r) mod n = y ^ (2 ^ r) mod n" for r
    unfolding y_def by (rule square_chain)
  have first: "x ^ (2 ^ 1) mod n = y" by (simp add: y_def)
  have step: "squaring_loop (Suc c) x n =
      (if y = n - 1 then True else if y = 1 then False else squaring_loop c y n)"
    by (simp add: mod_exp_def y_def Let_def)
  show ?case
  proof (cases "y = n - 1")
    case True
    with step first show ?thesis by (metis le_refl Suc_le_mono le0 One_nat_def)
  next
    case ny: False
    show ?thesis
    proof (cases "y = 1")
      case True
      have "x ^ (2 ^ r) mod n \<noteq> n - 1" if "1 \<le> r" for r
      proof -
        from that obtain q where r: "r = Suc q" by (cases r) auto
        have "x ^ (2 ^ r) mod n = 1 mod n" unfolding r chain True by simp
        also have "\<dots> = 1" using Suc.prems by simp
        finally show ?thesis using Suc.prems by simp
      qed
      with step True ny show ?thesis by auto
    next
      case False
      with step ny have "squaring_loop (Suc c) x n = squaring_loop c y n" by simp
      also have "\<dots> \<longleftrightarrow> (\<exists>r. 1 \<le> r \<and> r \<le> c \<and> y ^ (2 ^ r) mod n = n - 1)"
        by (rule Suc.IH [OF Suc.prems])
      also have "\<dots> \<longleftrightarrow> (\<exists>r. 1 \<le> r \<and> r \<le> Suc c \<and> x ^ (2 ^ r) mod n = n - 1)"
      proof
        assume "\<exists>r. 1 \<le> r \<and> r \<le> c \<and> y ^ (2 ^ r) mod n = n - 1"
        then obtain r where "1 \<le> r" "r \<le> c" "y ^ (2 ^ r) mod n = n - 1" by blast
        then have "1 \<le> Suc r \<and> Suc r \<le> Suc c \<and> x ^ (2 ^ Suc r) mod n = n - 1"
          using chain [of r] by simp
        then show "\<exists>r. 1 \<le> r \<and> r \<le> Suc c \<and> x ^ (2 ^ r) mod n = n - 1" by blast
      next
        assume "\<exists>r. 1 \<le> r \<and> r \<le> Suc c \<and> x ^ (2 ^ r) mod n = n - 1"
        then obtain r where r: "1 \<le> r" "r \<le> Suc c" "x ^ (2 ^ r) mod n = n - 1" by blast
        from r(1) obtain q where q: "r = Suc q" by (cases r) auto
        have "q \<noteq> 0"
        proof
          assume "q = 0"
          with q r(3) first have "y = n - 1" by simp
          with ny show False by simp
        qed
        with q r chain [of q] have "1 \<le> q \<and> q \<le> c \<and> y ^ (2 ^ q) mod n = n - 1" by simp
        then show "\<exists>r. 1 \<le> r \<and> r \<le> c \<and> y ^ (2 ^ r) mod n = n - 1" by blast
      qed
      finally show ?thesis .
    qed
  qed
qed

lemma witness_test_iff:
  assumes n: "2 < n" and s: "1 \<le> s" and d: "0 \<le> d"
  shows "witness_test a n s d \<longleftrightarrow> strong_probable_prime a n (nat s) (nat d)"
proof -
  define x where "x = a ^ nat d mod n"
  have pw: "x ^ (2 ^ r) mod n = a ^ (2 ^ r * nat d) mod n" for r
    unfolding x_def by (simp add: power_mod power_mult [symmetric] mult.commute)
  have x0: "x = a ^ (2 ^ 0 * nat d) mod n" by (simp add: x_def)
  have "witness_test a n s d \<longleftrightarrow>
      x = 1 \<or> x = n - 1 \<or> (\<exists>r. 1 \<le> r \<and> r \<le> nat (s - 1) \<and> x ^ (2 ^ r) mod n = n - 1)"
    unfolding witness_test_def Let_def mod_exp_def x_def [symmetric]
    using squaring_loop_iff [OF n, of "nat (s - 1)" x] by auto
  also have "(x = n - 1 \<or> (\<exists>r. 1 \<le> r \<and> r \<le> nat (s - 1) \<and> x ^ (2 ^ r) mod n = n - 1))
      \<longleftrightarrow> (\<exists>r<nat s. a ^ (2 ^ r * nat d) mod n = n - 1)"
  proof
    assume "x = n - 1 \<or> (\<exists>r. 1 \<le> r \<and> r \<le> nat (s - 1) \<and> x ^ (2 ^ r) mod n = n - 1)"
    then show "\<exists>r<nat s. a ^ (2 ^ r * nat d) mod n = n - 1"
    proof
      assume "x = n - 1"
      with x0 s have "0 < nat s \<and> a ^ (2 ^ 0 * nat d) mod n = n - 1" by simp
      then show ?thesis by blast
    next
      assume "\<exists>r. 1 \<le> r \<and> r \<le> nat (s - 1) \<and> x ^ (2 ^ r) mod n = n - 1"
      then obtain r where "1 \<le> r" "r \<le> nat (s - 1)" "x ^ (2 ^ r) mod n = n - 1" by blast
      with s pw [of r] have "r < nat s \<and> a ^ (2 ^ r * nat d) mod n = n - 1" by auto
      then show ?thesis by blast
    qed
  next
    assume "\<exists>r<nat s. a ^ (2 ^ r * nat d) mod n = n - 1"
    then obtain r where r: "r < nat s" "a ^ (2 ^ r * nat d) mod n = n - 1" by blast
    show "x = n - 1 \<or> (\<exists>r. 1 \<le> r \<and> r \<le> nat (s - 1) \<and> x ^ (2 ^ r) mod n = n - 1)"
    proof (cases r)
      case 0
      with r x0 show ?thesis by simp
    next
      case (Suc q)
      with r pw [of r] have "1 \<le> r \<and> r \<le> nat (s - 1) \<and> x ^ (2 ^ r) mod n = n - 1" by auto
      then show ?thesis by blast
    qed
  qed
  finally show ?thesis
    unfolding strong_probable_prime_def x_def by blast
qed

lemma run_witnesses_all: "run_witnesses ws n s d \<longleftrightarrow> (\<forall>a\<in>set ws. witness_test a n s d)"
  by (induction ws) auto

lemma decompose_odd:
  assumes "2 < n" "odd n" "decompose_n_minus_1 n = Some (s, d)"
  shows "1 \<le> s \<and> 0 < d"
proof -
  from assms(1) have "0 < n - 1" by simp
  from decompose_loop_pos [OF this, of 0] assms(2,3) show ?thesis
    unfolding decompose_n_minus_1_def by auto
qed

lemma MillerRabin_large:
  assumes "2 ^ 64 \<le> n" "odd n" "decompose_n_minus_1 n = Some (s, d)"
  shows "MillerRabin_test lib rng rounds n det =
           Some (run_witnesses (choose_witnesses rng rounds n det) n s d)"
proof -
  from assms(2) have "n mod 2 \<noteq> 0" by presburger
  with assms(1,3) show ?thesis by (simp add: MillerRabin_test_def)
qed

text \<open>
  C4: for every odd n > 2 with decomposition n - 1 = 2^s * d, the single-witness test
  reports "does not prove compositeness" exactly when n is a strong probable prime to
  the base a; otherwise the witness proves n composite, and a test that reaches its
  witness loop (n at least 2^64) with a among its witnesses returns composite.
\<close>

theorem witness_test_strong_probable_prime:
  assumes "odd n" "2 < n" "decompose_n_minus_1 n = Some (s, d)" "1 < a" "a < n - 1"
  shows "(witness_test a n s d \<longleftrightarrow> strong_probable_prime a n (nat s) (nat d)) \<and>
         (\<not> witness_test a n s d \<and> 2 ^ 64 \<le> n \<and> a \<in> set (choose_witnesses rng rounds n det)
            \<longrightarrow> MillerRabin_test lib rng rounds n det = Some False)"
proof -
  from decompose_odd [OF assms(2,1,3)] have sd: "1 \<le> s" "0 \<le> d" by simp_all
  have "witness_test a n s d \<longleftrightarrow> strong_probable_prime a n (nat s) (nat d)"
    by (rule witness_test_iff [OF assms(2) sd])
  moreover have "MillerRabin_test lib rng rounds n det = Some False"
    if "\<not> witness_test a n s d" "2 ^ 64 \<le> n" "a \<in> set (choose_witnesses rng rounds n det)"
  proof -
    from that(1,3) have "\<not> run_witnesses (choose_witnesses rng rounds n det) n s d"
      by (auto simp: run_witnesses_all)
    with MillerRabin_large [OF that(2) assms(1,3)] show ?thesis by simp
  qed
  ultimately show ?thesis by blast
qed

theorem witness_test_strong_probable_prime_witness:
  "\<not> witness_test 3 (2 ^ 64 + 1) 64 1 \<and> \<not> strong_probable_prime 3 (2 ^ 64 + 1) 64 1 \<and>
   MillerRabin_test exact_prime (\<lambda>i. 0) 1 (2 ^ 64 + 1) True = Some False"
proof -
  have h1: "odd (2 ^ 64 + 1 :: int)" by simp
  have h2: "(2::int) < 2 ^ 64 + 1" by simp
  have h3: "decompose_n_minus_1 (2 ^ 64 + 1) = Some (64, 1)" by code_simp
  have h4: "(1::int) < 3" by simp
  have h5: "(3::int) < 2 ^ 64 + 1 - 1" by simp
  have w: "\<not> witness_test 3 (2 ^ 64 + 1) 64 1" by code_simp
  have m: "3 \<in> set (choose_witnesses (\<lambda>i. 0) 1 (2 ^ 64 + 1) True)" by code_simp
  from witness_test_strong_probable_prime [OF h1 h2 h3 h4 h5, of "\<lambda>i. 0" 1 True exact_prime] w m
  show ?thesis by simp
qed

section \<open>Small inputs of the Miller-Rabin tester\<close>

text \<open>
  C10: for every integer n below 2^64 (negative n included) the Miller-Rabin tester's
  result does not depend on the rounds parameter, on the use_deterministic flag or on
  the random draws: any two runs return the same result, namely the answer of the
  small-integer primality check for n.
\<close>

theorem MillerRabin_small_is_prime_small:
  assumes "n < 2 ^ 64"
  shows "MillerRabin_test lib rng rounds n det = Some (is_prime_small lib n) \<and>
         MillerRabin_test lib rng' rounds' n det' = MillerRabin_test lib rng rounds n det"
proof -
  have three: "is_prime_small lib 3"
    by (simp add: is_prime_small_def isqrt_def isqrt_from.simps trial_division.simps)
  have "MillerRabin_test lib r k n b = Some (is_prime_small lib n)" for r k b
  proof (cases "n \<le> 3")
    case True
    then consider "n \<le> 1" | "n = 2" | "n = 3" by linarith
    then show ?thesis
    proof cases
      case 1
      then show ?thesis by (simp add: MillerRabin_test_def is_prime_small_def)
    next
      case 2
      then show ?thesis by (simp add: MillerRabin_test_def is_prime_small_def)
    next
      case 3
      with three show ?thesis by (simp add: MillerRabin_test_def)
    qed
  next
    case False
    with assms show ?thesis by (simp add: MillerRabin_test_def is_prime_small_def)
  qed
  then show ?thesis by simp
qed

theorem MillerRabin_small_is_prime_small_witness:
  "(97::int) < 2 ^ 64 \<and>
   MillerRabin_test exact_prime (\<lambda>i. 0) 20 97 False = Some (is_prime_small exact_prime 97) \<and>
   MillerRabin_test exact_prime (\<lambda>i. 7) 1 97 True = MillerRabin_test exact_prime (\<lambda>i. 0) 20 97 False"
  using MillerRabin_small_is_prime_small [of 97 exact_prime "\<lambda>i. 0" 20 False "\<lambda>i. 7" 1 True]
  by simp

section \<open>The automatic selection\<close>

text \<open>
  C2 fails at n = 15 = 2^4 - 1: n > 3 and n + 1 has one set bit, the exponent 4 is not
  prime, so no branch of the selector assigns an algorithm; the name stays "auto" and
  the dispatch raises ValueError instead of running BPSW.
\<close>

theorem auto_composite_exponent_raises:
  "is_prime_cpu lib rng 15 ''auto'' kw = Some (Inl (ValueError ''Unknown algorithm: auto''))"
  by (simp add: is_prime_cpu_def auto_select_def is_prime_small_def bit_count.simps bit_length.simps)

section \<open>The Lucas ladder\<close>

text \<open>
  C3 fails at n = 13: the search accepts D = 5 (Jacobi symbol -1), so P = 1, Q = -1 and
  U_14 = 377 = 13 * 29 is 0 modulo 13; the ladder, which halves with a floor division,
  ends with U = 2 and reports composite.
\<close>

theorem lucas_ladder_misses_U_at_13:
  "find_D 13 = Some 5 \<and> jacobi_symbol 5 13 = - 1 \<and>
   lucas_U 1 ((1 - 5) div 4) (nat (13 + 1)) mod 13 = 0 \<and>
   lucas_sequence_test 13 5 = False \<and> LucasPrimality_test 13 = False"
proof -
  have "find_D 13 = Some 5" by code_simp
  moreover have "jacobi_symbol 5 13 = - 1" by code_simp
  moreover have "lucas_U 1 ((1 - 5) div 4) (nat (13 + 1)) mod 13 = 0" by code_simp
  moreover have "lucas_sequence_test 13 5 = False" by code_simp
  moreover have "LucasPrimality_test 13 = False" by code_simp
  ultimately show ?thesis by blast
qed

section \<open>Dependence on the random source\<close>

text \<open>
  C7 as stated fails: for n = 2^64 + 1 in probabilistic mode with one round, the draw
  that gives base 2 reports probably prime and the draw that gives base 3 reports
  composite.
\<close>

theorem MillerRabin_depends_on_draws_counterexample:
  "MillerRabin_test exact_prime (constant_draws 0) 1 (2 ^ 64 + 1) False = Some True \<and>
   MillerRabin_test exact_prime (constant_draws 1) 1 (2 ^ 64 + 1) False = Some False"
proof -
  have "MillerRabin_test exact_prime (constant_draws 0) 1 (2 ^ 64 + 1) False = Some True" by code_simp
  moreover have "MillerRabin_test exact_prime (constant_draws 1) 1 (2 ^ 64 + 1) False = Some False"
    by code_simp
  ultimately show ?thesis by blast
qed

text \<open>
  C7, amended: the Miller-Rabin result does not depend on the random source when
  n < 2^64, or in deterministic mode when n < 3317044064679887385961981; the BPSW
  result does not depend on it when n < 3317044064679887385961981. (The Lucas and
  Lucas-Lehmer testers take no random source at all.)
\<close>

theorem testers_independent_of_draws:
  "(n < 2 ^ 64 \<or> (det \<and> n < 3317044064679887385961981) \<longrightarrow>
      MillerRabin_test lib rng rounds n det = MillerRabin_test lib rng' rounds n det) \<and>
   (n < 3317044064679887385961981 \<longrightarrow> BPSW_test lib rng n = BPSW_test lib rng' n)"
proof -
  have mr: "MillerRabin_test lib rng rounds n det = MillerRabin_test lib rng' rounds n det"
    if h: "n < 2 ^ 64 \<or> (det \<and> n < 3317044064679887385961981)" for rounds det
  proof (cases "n < 2 ^ 64")
    case True
    then show ?thesis by (simp add: MillerRabin_test_def)
  next
    case False
    with h have cw: "choose_witnesses r rounds n det = filter (\<lambda>a. a < n) deterministic_bases" for r
      by (simp add: choose_witnesses_def)
    show ?thesis unfolding MillerRabin_test_def cw by (rule refl)
  qed
  have "BPSW_test lib rng n = BPSW_test lib rng' n" if "n < 3317044064679887385961981"
    using mr [of True 1] that by (simp add: BPSW_test_def)
  with mr show ?thesis by blast
qed

theorem testers_independent_of_draws_witness:
  "MillerRabin_test exact_prime (\<lambda>i. 0) 1 (2 ^ 64 + 1) True =
     MillerRabin_test exact_prime (\<lambda>i. 1) 1 (2 ^ 64 + 1) True \<and>
   BPSW_test exact_prime (\<lambda>i. 0) (2 ^ 64 + 1) = BPSW_test exact_prime (\<lambda>i. 1) (2 ^ 64 + 1)"
  using testers_independent_of_draws [of "2 ^ 64 + 1" True exact_prime "\<lambda>i. 0" 1 "\<lambda>i. 1"]
  by simp


section \<open>The probable-prime generator\<close>

lemma bit_length_bounds: "2 ^ k \<le> m \<Longrightarrow> m < 2 ^ Suc k \<Longrightarrow> bit_length m = Suc k"
proof (induction k arbitrary: m)
  case 0
  then have "m = 1" by simp
  then show ?case by (simp add: bit_length.simps)
next
  case (Suc k)
  from Suc.prems have "2 ^ k \<le> m div 2" "m div 2 < 2 ^ Suc k" by auto
  from Suc.IH [OF this] have "bit_length (m div 2) = Suc k" .
  moreover from Suc.prems have "m \<noteq> 0" by auto
  ultimately show ?case by (subst bit_length.simps) simp
qed

lemma generate_loop_result:
  assumes "generate_loop lib k rng = Some n"
  shows "odd n \<and> 2 ^ k \<le> n \<and> n < 2 ^ Suc k \<and> is_probably_prime lib n 5"
proof (rule generate_loop.raw_induct
    [where P = "\<lambda>lib k rng n. odd n \<and> 2 ^ k \<le> n \<and> n < 2 ^ Suc k \<and> is_probably_prime lib n 5",
      OF _ assms])
  fix g :: "probab_prime \<Rightarrow> nat \<Rightarrow> random_source \<Rightarrow> int option"
  fix lib :: probab_prime and k :: nat and rng :: random_source and n :: int
  assume IH: "\<And>lib k rng y. g lib k rng = Some y \<Longrightarrow>
      odd y \<and> 2 ^ k \<le> y \<and> y < 2 ^ Suc k \<and> is_probably_prime lib y 5"
  assume eq: "(let n0 = 2 ^ k + getrandbits k (rng 0);
                   n = if n0 mod 2 = 0 then n0 + 1 else n0
               in if is_probably_prime lib n 5 then Some n
                  else g lib k (advance rng)) = Some n"
  define n0 where "n0 = 2 ^ k + getrandbits k (rng 0)"
  define c where "c = (if n0 mod 2 = 0 then n0 + 1 else n0)"
  have r: "0 \<le> getrandbits k (rng 0)" "getrandbits k (rng 0) < 2 ^ k"
    by (simp_all add: getrandbits_def)
  then have b0: "2 ^ k \<le> n0" "n0 < 2 ^ Suc k" by (simp_all add: n0_def)
  have oc: "odd c" unfolding c_def by presburger
  define m where "m = (2::int) ^ Suc k"
  have em: "even m" by (simp add: m_def)
  from b0 have lt: "n0 < m" by (simp add: m_def)
  have "c < m"
  proof (cases "n0 mod 2 = 0")
    case True
    then have "even n0" by presburger
    with em lt have "n0 + 1 < m" by presburger
    with True show ?thesis by (simp add: c_def)
  next
    case False
    with lt show ?thesis by (simp add: c_def)
  qed
  moreover from b0 have "2 ^ k \<le> c" by (simp add: c_def)
  ultimately have bc: "2 ^ k \<le> c" "c < 2 ^ Suc k" by (simp_all add: m_def)
  from eq have e: "(if is_probably_prime lib c 5 then Some c
      else g lib k (advance rng)) = Some n"
    unfolding Let_def c_def n0_def .
  show "odd n \<and> 2 ^ k \<le> n \<and> n < 2 ^ Suc k \<and> is_probably_prime lib n 5"
  proof (cases "is_probably_prime lib c 5")
    case True
    with e have "n = c" by simp
    with oc bc True show ?thesis by simp
  next
    case False
    with e have "g lib k (advance rng) = Some n" by simp
    from IH [OF this] show ?thesis .
  qed
qed

text \<open>
  C9: for every requested bit length of at least 2 and every sequence of draws on which
  the loop returns, the result is an odd integer of exactly that bit length (the top
  bit set: it lies in [2^(bits-1), 2^bits)) that passes the library's probable-prime
  check with 5 repetitions, the check the generator uses.
\<close>

theorem generated_prime_properties:
  assumes "2 \<le> bits" "generate_random_probable_prime lib rng bits = Some r"
  shows "\<exists>n. r = Inr n \<and> odd n \<and> bit_length (nat n) = nat bits \<and>
             2 ^ nat (bits - 1) \<le> n \<and> n < 2 ^ nat bits \<and> is_probably_prime lib n 5"
proof -
  from assms obtain n where n: "generate_loop lib (nat (bits - 1)) rng = Some n" "r = Inr n"
    by (auto simp: generate_random_probable_prime_def)
  from assms(1) have sb: "Suc (nat (bits - 1)) = nat bits" by simp
  from generate_loop_result [OF n(1)]
  have p: "odd n" "2 ^ nat (bits - 1) \<le> n" "n < 2 ^ nat bits" "is_probably_prime lib n 5"
    by (simp_all add: sb)
  from p(2) have "0 \<le> n" by (meson order_trans zero_le_numeral zero_le_power)
  with p(2,3) have "2 ^ nat (bits - 1) \<le> nat n" "nat n < 2 ^ Suc (nat (bits - 1))"
    unfolding sb by (simp_all add: le_nat_iff nat_less_iff)
  from bit_length_bounds [OF this] have "bit_length (nat n) = nat bits" by (simp add: sb)
  with n(2) p show ?thesis by blast
qed

theorem generated_prime_properties_witness:
  "generate_random_probable_prime exact_prime (\<lambda>i. i) 4 = Some (Inr 11) \<and>
   odd (11::int) \<and> bit_length (nat 11) = nat 4 \<and> is_probably_prime exact_prime 11 5"
proof -
  have h: "generate_random_probable_prime exact_prime (\<lambda>i. i) 4 = Some (Inr 11)" by code_simp
  have "(2::int) \<le> 4" by simp
  from generated_prime_properties [OF this h] h show ?thesis by simp
qed

section \<open>Errors of the entry point\<close>

text \<open>
  C8 as stated fails at n = 127 = 2^7 - 1: an explicit "lucas-lehmer" request without
  the option p raises ValueError, whatever the form of n.
\<close>

theorem explicit_lucas_lehmer_needs_p_counterexample:
  "is_prime_cpu exact_prime (constant_draws 0) 127 ''lucas-lehmer'' no_kwargs =
     Some (Inl (ValueError ''Lucas-Lehmer requires exponent p for testing 2^p - 1''))"
  by (simp add: is_prime_cpu_def auto_select_def no_kwargs_def)

text \<open>
  C8, amended: apart from the automatic selection on a Mersenne-form input whose
  exponent is not prime, the entry point raises exactly when the algorithm name is none
  of "auto", "miller-rabin", "lucas-lehmer", "bpsw", or when "lucas-lehmer" is requested
  without the option p (whatever n is).
\<close>

theorem is_prime_cpu_raises_iff:
  assumes "\<not> (algorithm = ''auto'' \<and> n > 3 \<and> bit_count (nat (n + 1)) = 1 \<and>
              \<not> is_prime_small lib (int (bit_length (nat (n + 1))) - 1))"
  shows "(\<exists>e. is_prime_cpu lib rng n algorithm kw = Some (Inl e)) \<longleftrightarrow>
           algorithm \<notin> {''auto'', ''miller-rabin'', ''lucas-lehmer'', ''bpsw''} \<or>
           (algorithm = ''lucas-lehmer'' \<and> kw_p kw = None)"
proof (cases "algorithm = ''auto''")
  case True
  with assms show ?thesis
    by (auto simp: is_prime_cpu_def auto_select_def Let_def)
next
  case False
  then show ?thesis
    by (auto simp: is_prime_cpu_def auto_select_def Let_def split: option.splits)
qed

theorem is_prime_cpu_raises_iff_witness:
  "(\<exists>e. is_prime_cpu exact_prime (\<lambda>i. 0) 127 ''lucas-lehmer'' no_kwargs = Some (Inl e)) \<and>
   (\<nexists>e. is_prime_cpu exact_prime (\<lambda>i. 0) 127 ''auto'' no_kwargs = Some (Inl e))"
proof -
  have a: "\<not> (''lucas-lehmer'' = ''auto'' \<and> (127::int) > 3 \<and> bit_count (nat (127 + 1)) = 1 \<and>
              \<not> is_prime_small exact_prime (int (bit_length (nat (127 + 1))) - 1))" by simp
  have p: "is_prime_small exact_prime (int (bit_length (nat (127 + 1))) - 1)" by code_simp
  then have b: "\<not> (''auto'' = ''auto'' \<and> (127::int) > 3 \<and> bit_count (nat (127 + 1)) = 1 \<and>
              \<not> is_prime_small exact_prime (int (bit_length (nat (127 + 1))) - 1))" by simp
  from is_prime_cpu_raises_iff [OF a, of "\<lambda>i. 0" no_kwargs]
    is_prime_cpu_raises_iff [OF b, of "\<lambda>i. 0" no_kwargs]
  show ?thesis by (simp add: no_kwargs_def)
qed

end
